theory Spec2Isabelle
  imports Main "HOL-Library.Word" "HOL-Library.Multiset"
begin

section \<open>Quorum expressions (src/common/quorum.go)\<close>

text \<open>
  Verifier identifiers are Go \<^verbatim>\<open>uint64\<close> values. A presence set and the accumulator of
  \<^verbatim>\<open>ListQuorum\<close> are Go maps \<^verbatim>\<open>map[uint64]struct{}\<close>: a partial function into the
  one-element type, whose domain is the key set. Reading a key of a nil map is allowed in
  Go and finds nothing, so a nil presence map is the empty map here.
\<close>

type_synonym u64 = "64 word"

type_synonym verifier_map = "u64 \<rightharpoonup> unit"

text \<open>
  The only run-time failure of the two functions is the dereference of a nil
  \<^verbatim>\<open>*proto.QuorumExpr\<close>.
\<close>

datatype error = NilPointerDereference

text \<open>
  Modelled from the spec: the struct \<^verbatim>\<open>proto.QuorumExpr\<close>, which is declared in the
  generated \<^verbatim>\<open>proto\<close> package and is not among the source files. Its three fields are
  the ones \<^verbatim>\<open>quorum.go\<close> reads and section 6 of the specification lists. The unsigned
  integer type of the threshold is the type parameter \<open>'u\<close>; the functions below take it
  to be a machine word of any width. A sub-expression is held through a pointer, which
  may be nil: \<open>None\<close>.
\<close>

datatype 'u QuorumExpr =
  QuorumExpr (Threshold: 'u) (Verifiers: "u64 list")
             (Subexpressions: "'u QuorumExpr option list")

text \<open>
  A \<^verbatim>\<open>for ... range\<close> loop of \<^verbatim>\<open>CheckQuorum\<close> either executes \<^verbatim>\<open>return true\<close>
  or runs to its end and leaves the counter \<^verbatim>\<open>remaining\<close> to the code after it.
\<close>

datatype 'a loop_exit = Return bool | Fallthrough 'a

text \<open>
  Lines 12 to 18: the loop over \<^verbatim>\<open>want.Verifiers\<close>. The decrement is the one of the
  unsigned machine type (it would wrap at zero).
\<close>

fun verifiers_loop :: "u64 list \<Rightarrow> verifier_map \<Rightarrow> 'w::len word \<Rightarrow> 'w word loop_exit" where
  "verifiers_loop [] have remaining = Fallthrough remaining"
| "verifiers_loop (verifier # vs) have remaining =
     (if have verifier \<noteq> None then
        (if remaining - 1 = 0 then Return True
         else verifiers_loop vs have (remaining - 1))
      else verifiers_loop vs have remaining)"

text \<open>
  \<^verbatim>\<open>CheckQuorum\<close> (lines 7 to 27) and its loop over \<^verbatim>\<open>want.Subexpressions\<close>
  (lines 19 to 25), which ends in \<^verbatim>\<open>return false\<close>.
\<close>

fun CheckQuorum :: "('w::len) word QuorumExpr option \<Rightarrow> verifier_map \<Rightarrow> error + bool"
and subexpressions_loop ::
  "('w::len) word QuorumExpr option list \<Rightarrow> verifier_map \<Rightarrow> 'w word \<Rightarrow> error + bool"
where
  "CheckQuorum None have = Inl NilPointerDereference"
| "CheckQuorum (Some (QuorumExpr threshold verifiers subexpressions)) have =
     (if threshold = 0 then Inr True
      else case verifiers_loop verifiers have threshold of
             Return b \<Rightarrow> Inr b
           | Fallthrough remaining \<Rightarrow> subexpressions_loop subexpressions have remaining)"
| "subexpressions_loop [] have remaining = Inr False"
| "subexpressions_loop (e # es) have remaining =
     (case CheckQuorum e have of
        Inl err \<Rightarrow> Inl err
      | Inr yes \<Rightarrow>
          if yes then
            (if remaining - 1 = 0 then Inr True
             else subexpressions_loop es have (remaining - 1))
          else subexpressions_loop es have remaining)"

text \<open>
  \<^verbatim>\<open>ListQuorum\<close> writes into a map that its caller may also hold, and allocates one
  when it is given nil. Maps are therefore objects of a store: a reference is a natural
  number, \<open>cells\<close> gives the contents of each map object and \<open>next_ref\<close> is the first
  reference that \<^verbatim>\<open>make\<close> has not handed out yet. A value of Go type
  \<^verbatim>\<open>map[uint64]struct{}\<close> is a \<open>ref option\<close>, \<open>None\<close> for nil.
\<close>

type_synonym ref = nat

record heap =
  cells :: "ref \<Rightarrow> verifier_map"
  next_ref :: ref

text \<open>Line 33: \<^verbatim>\<open>make(map[uint64]struct{}, n)\<close>, a new empty map (the capacity hint
  \<^verbatim>\<open>n\<close> has no effect on its contents).\<close>

definition make_map :: "heap \<Rightarrow> ref \<times> heap" where
  "make_map h =
     (next_ref h,
      h\<lparr>cells := (cells h)(next_ref h := Map.empty), next_ref := Suc (next_ref h)\<rparr>)"

text \<open>Line 36: \<^verbatim>\<open>out[verifier] = struct{}{}\<close>.\<close>

definition map_insert :: "ref \<Rightarrow> u64 \<Rightarrow> heap \<Rightarrow> heap" where
  "map_insert out verifier h =
     h\<lparr>cells := (cells h)(out := (cells h out)(verifier \<mapsto> ()))\<rparr>"

text \<open>Lines 35 to 37: the loop over \<^verbatim>\<open>e.Verifiers\<close>.\<close>

fun insert_loop :: "u64 list \<Rightarrow> ref \<Rightarrow> heap \<Rightarrow> heap" where
  "insert_loop [] out h = h"
| "insert_loop (verifier # vs) out h = insert_loop vs out (map_insert out verifier h)"

text \<open>
  \<^verbatim>\<open>ListQuorum\<close> (lines 31 to 42) and its loop over \<^verbatim>\<open>e.Subexpressions\<close>
  (lines 38 to 40), whose recursive calls get the map \<^verbatim>\<open>out\<close>, no longer nil, and
  whose results are dropped. The function returns the reference \<^verbatim>\<open>out\<close> and the
  store it leaves behind.
\<close>

fun ListQuorum :: "'u QuorumExpr option \<Rightarrow> ref option \<Rightarrow> heap \<Rightarrow> error + ref \<times> heap"
and ListQuorum_loop :: "'u QuorumExpr option list \<Rightarrow> ref \<Rightarrow> heap \<Rightarrow> error + heap"
where
  "ListQuorum None out h = Inl NilPointerDereference"
| "ListQuorum (Some (QuorumExpr threshold verifiers subexpressions)) out h =
     (case (case out of None \<Rightarrow> make_map h | Some r \<Rightarrow> (r, h)) of
        (out', h1) \<Rightarrow>
          (case ListQuorum_loop subexpressions out' (insert_loop verifiers out' h1) of
             Inl err \<Rightarrow> Inl err
           | Inr h2 \<Rightarrow> Inr (out', h2)))"
| "ListQuorum_loop [] out h = Inr h"
| "ListQuorum_loop (e # es) out h =
     (case ListQuorum e (Some out) h of
        Inl err \<Rightarrow> Inl err
      | Inr (r, h') \<Rightarrow> ListQuorum_loop es out h')"

section \<open>The notions of the specification\<close>

text \<open>
  A quorum expression of the specification is a finite tree: the value behind a
  non-nil pointer, none of whose sub-expression pointers, at any depth, is nil.
\<close>

fun nil_free :: "'u QuorumExpr \<Rightarrow> bool" where
  "nil_free (QuorumExpr threshold verifiers subexpressions) =
     list_all (\<lambda>e. case e of None \<Rightarrow> False | Some e' \<Rightarrow> nil_free e') subexpressions"

text \<open>
  The reference definition of satisfaction, written after the specification and not
  after the code: no counter and no early exit. An expression is satisfied when the
  number of entries of its verifiers list that are present, plus the number of its
  sub-expressions that are satisfied in this same sense, is at least its threshold.
  A nil pointer is no expression and is not counted; the definition is compared with
  the code on trees without nil pointers only.
\<close>

fun Satisfies_ref :: "('w::len) word QuorumExpr \<Rightarrow> verifier_map \<Rightarrow> bool" where
  "Satisfies_ref (QuorumExpr threshold verifiers subexpressions) have =
     (unat threshold \<le>
        length (filter (\<lambda>v. v \<in> dom have) verifiers) +
        length (filter (\<lambda>e. case e of None \<Rightarrow> False | Some e' \<Rightarrow> Satisfies_ref e' have)
                  subexpressions))"

text \<open>
  The verifiers an expression mentions: those of its own list and those of its
  sub-expressions, at any depth (a nil pointer mentions none).
\<close>

fun all_verifiers :: "'u QuorumExpr \<Rightarrow> u64 set" where
  "all_verifiers (QuorumExpr threshold verifiers subexpressions) =
     set verifiers \<union>
     (\<Union>e\<in>set subexpressions. case e of None \<Rightarrow> {} | Some e' \<Rightarrow> all_verifiers e')"

text \<open>
  The effect of inserting the keys \<open>A\<close> into the map object \<open>out\<close>: its key set grows
  by \<open>A\<close>, every other map object is as it was, and nothing is allocated.
\<close>

definition inserted :: "heap \<Rightarrow> ref \<Rightarrow> u64 set \<Rightarrow> heap \<Rightarrow> bool" where
  "inserted h out A h' \<longleftrightarrow>
     dom (cells h' out) = dom (cells h out) \<union> A \<and>
     (\<forall>r. r \<noteq> out \<longrightarrow> cells h' r = cells h r) \<and>
     next_ref h' = next_ref h"

section \<open>The replicated log (src/keyserver/replication/replication.go)\<close>

text \<open>
  Modelled from the spec: the committed log of a replica. \<^verbatim>\<open>LogReplicator\<close> is an
  interface; no type that implements it, and so no log, is among the source files. The
  log maps slot indices to byte strings; \<open>retained\<close> are the committed entries the
  replica holds, in index order and without gaps, the first of them at index
  \<open>horizon\<close>.
\<close>

type_synonym byte = "8 word"

type_synonym entry = "byte list"

record committed_log =
  horizon :: nat
  retained :: "entry list"

text \<open>Modelled from the spec: the committed entry at an index, if the replica holds one.\<close>

definition entry_at :: "committed_log \<Rightarrow> nat \<Rightarrow> entry option" where
  "entry_at log i =
     (if horizon log \<le> i \<and> i < horizon log + length (retained log)
      then Some (retained log ! (i - horizon log)) else None)"

text \<open>
  Modelled from the spec: the two failures section 4.2 gives for \<^verbatim>\<open>GetCommitted\<close>,
  a lower bound below the retained horizon and a range that is otherwise invalid, here
  an upper bound below the lower one.
\<close>

datatype log_error = BelowHorizon | InvalidRange

text \<open>Modelled from the spec: the committed entries with indices from \<open>lo\<close> up to,
  and not including, \<open>hi\<close>.\<close>

definition entries_in_range :: "committed_log \<Rightarrow> nat \<Rightarrow> nat \<Rightarrow> entry list" where
  "entries_in_range log lo hi = take (hi - lo) (drop (lo - horizon log) (retained log))"

text \<open>
  Modelled from the spec: after the first entry, whose \<open>used\<close> bytes count, entries
  are added until the next one would take the sum of the sizes above \<open>maxSize\<close>.
\<close>

fun limit_size :: "nat \<Rightarrow> nat \<Rightarrow> entry list \<Rightarrow> entry list" where
  "limit_size maxSize used [] = []"
| "limit_size maxSize used (e # es) =
     (if maxSize < used + length e then []
      else e # limit_size maxSize (used + length e) es)"

text \<open>
  Modelled from the spec: \<^verbatim>\<open>GetCommitted(lo, hi, maxSize)\<close>, the method of the
  interface \<^verbatim>\<open>LogReplicator\<close> (lines 96 to 104), which has no implementation among
  the source files. The model follows the five rules of its doc comment and section 4.2
  of the specification: the entries from \<open>lo\<close> below \<open>hi\<close>, the first of them always, the
  following ones within \<open>maxSize\<close> bytes.
\<close>

definition GetCommitted ::
  "committed_log \<Rightarrow> u64 \<Rightarrow> u64 \<Rightarrow> u64 \<Rightarrow> log_error + entry list" where
  "GetCommitted log lo hi maxSize =
     (if unat lo < horizon log then Inl BelowHorizon
      else if hi < lo then Inl InvalidRange
      else case entries_in_range log (unat lo) (unat hi) of
             [] \<Rightarrow> Inr []
           | e # es \<Rightarrow> Inr (e # limit_size (unat maxSize) (length e) es))"

section \<open>The loops of CheckQuorum, counted\<close>

text \<open>
  As long as the counter is not zero, the loop over the verifiers returns true when the
  number of present entries reaches the counter, and otherwise leaves the counter less
  that number. The counter is never decremented at zero, so it never wraps.
\<close>

lemma verifiers_loop_count:
  "remaining \<noteq> 0 \<Longrightarrow>
   verifiers_loop vs have remaining =
     (if unat remaining \<le> length (filter (\<lambda>v. v \<in> dom have) vs) then Return True
      else Fallthrough (remaining - of_nat (length (filter (\<lambda>v. v \<in> dom have) vs))))"
proof (induction vs arbitrary: remaining)
  case Nil
  then show ?case by (simp add: unat_eq_zero)
next
  case (Cons v vs)
  show ?case
  proof (cases "v \<in> dom have")
    case False
    with Cons show ?thesis by (simp add: domIff)
  next
    case True
    show ?thesis
    proof (cases "remaining - 1 = 0")
      case z: True
      then have "remaining = 1" by simp
      with True show ?thesis by (simp add: domIff)
    next
      case nz: False
      have u: "unat (remaining - 1) = unat remaining - 1"
        using Cons.prems by (simp add: unat_minus_one)
      have "unat remaining \<noteq> 0" using Cons.prems by (simp add: unat_eq_zero)
      with u True nz Cons.IH [OF nz] show ?thesis
        by (auto simp: domIff)
    qed
  qed
qed

lemma unat_sub_of_nat:
  fixes r :: "'w::len word"
  assumes "n < unat r"
  shows "unat (r - of_nat n) = unat r - n" and "r - of_nat n \<noteq> 0"
proof -
  have "n < 2 ^ LENGTH('w)" using assms unsigned_less [of r] by (meson less_trans)
  then have n: "unat (of_nat n :: 'w word) = n" by (simp add: unat_of_nat)
  then have "(of_nat n :: 'w word) \<le> r" using assms by (simp add: word_le_nat_alt)
  then show u: "unat (r - of_nat n) = unat r - n" using n by (simp add: unat_sub)
  show "r - of_nat n \<noteq> 0"
  proof
    assume "r - of_nat n = 0"
    then have "unat (r - of_nat n) = 0" by simp
    with u assms show False by simp
  qed
qed

text \<open>
  The loop over the sub-expressions, when each of them evaluates without failure.
\<close>

lemma subexpressions_loop_count:
  assumes "\<forall>e\<in>set es. CheckQuorum e have = Inr (sat e)" and "remaining \<noteq> 0"
  shows "subexpressions_loop es have remaining =
           Inr (unat remaining \<le> length (filter sat es))"
  using assms
proof (induction es arbitrary: remaining)
  case Nil
  then show ?case by (simp add: unat_eq_zero)
next
  case (Cons e es)
  have e: "CheckQuorum e have = Inr (sat e)" using Cons.prems by simp
  have es: "\<forall>e\<in>set es. CheckQuorum e have = Inr (sat e)" using Cons.prems by simp
  have nz: "unat remaining \<noteq> 0" using Cons.prems by (simp add: unat_eq_zero)
  show ?case
  proof (cases "sat e")
    case False
    with e Cons.IH [OF es Cons.prems(2)] show ?thesis by simp
  next
    case True
    show ?thesis
    proof (cases "remaining - 1 = 0")
      case z: True
      then have "remaining = 1" by simp
      with True e show ?thesis by simp
    next
      case False
      have u: "unat (remaining - 1) = unat remaining - 1"
        using Cons.prems by (simp add: unat_minus_one)
      from u nz True e False Cons.IH [OF es False] show ?thesis by auto
    qed
  qed
qed

text \<open>
  On a tree without nil pointers \<open>CheckQuorum\<close> does not fail and computes the
  reference definition.
\<close>

lemma CheckQuorum_eq_Satisfies_ref:
  "nil_free e \<Longrightarrow> CheckQuorum (Some e) have = Inr (Satisfies_ref e have)"
proof (induction e)
  case (QuorumExpr t vs subs)
  let ?sat = "\<lambda>e. case e of None \<Rightarrow> False | Some e' \<Rightarrow> Satisfies_ref e' have"
  let ?n = "length (filter (\<lambda>v. v \<in> dom have) vs)"
  have subs: "\<forall>e\<in>set subs. CheckQuorum e have = Inr (?sat e)"
  proof
    fix e assume m: "e \<in> set subs"
    with QuorumExpr.prems obtain e' where e': "e = Some e'" "nil_free e'"
      by (auto simp: list_all_iff split: option.splits)
    with m QuorumExpr.IH [of e e'] show "CheckQuorum e have = Inr (?sat e)" by simp
  qed
  show ?case
  proof (cases "t = 0")
    case True
    then show ?thesis by simp
  next
    case nz: False
    show ?thesis
    proof (cases "unat t \<le> ?n")
      case True
      with nz show ?thesis by (simp add: verifiers_loop_count)
    next
      case False
      then have lt: "?n < unat t" by simp
      from subexpressions_loop_count [OF subs unat_sub_of_nat(2) [OF lt]]
      have "subexpressions_loop subs have (t - of_nat ?n) =
              Inr (unat t - ?n \<le> length (filter ?sat subs))"
        by (simp add: unat_sub_of_nat(1) [OF lt])
      with nz False lt show ?thesis
        by (simp add: verifiers_loop_count) linarith
    qed
  qed
qed

lemma length_filter_mset_eq:
  "mset xs = mset ys \<Longrightarrow> length (filter P xs) = length (filter P ys)"
proof -
  assume "mset xs = mset ys"
  then have "size (filter_mset P (mset xs)) = size (filter_mset P (mset ys))" by simp
  then show ?thesis by (simp flip: mset_filter)
qed

lemma length_filter_distinct:
  "distinct vs \<Longrightarrow> length (filter (\<lambda>v. v \<in> A) vs) = card (set vs \<inter> A)"
  by (simp add: distinct_length_filter Int_commute)

section \<open>Zero thresholds\<close>

text \<open>
  C1. An expression whose threshold is 0 is satisfied by every presence map, the empty
  one included, whatever its verifiers and sub-expressions are: they are not looked
  at, so that even a nil pointer among the sub-expressions does no harm.
\<close>

theorem CheckQuorum_threshold_zero:
  "CheckQuorum (Some (QuorumExpr 0 verifiers subexpressions)) have = Inr True"
  by simp

text \<open>Threshold 0 over two verifiers, a nil pointer and a sub-expression, with nobody
  present.\<close>

theorem CheckQuorum_threshold_zero_witness:
  "CheckQuorum (Some (QuorumExpr (0 :: 64 word) [7, 8] [None, Some (QuorumExpr 3 [] [])]))
     Map.empty = Inr True"
  using CheckQuorum_threshold_zero [of "[7, 8]" "[None, Some (QuorumExpr 3 [] [])]" Map.empty]
  by simp

section \<open>CheckQuorum and the reference definition\<close>

text \<open>
  C2. For every finite quorum expression and every presence map, the short-circuiting
  \<open>CheckQuorum\<close> returns the boolean of the reference definition \<open>Satisfies_ref\<close>:
  true exactly when the number of entries of the verifiers list that are present plus
  the number of satisfied sub-expressions is at least the threshold. In particular the
  result does not change when the verifiers list or the list of sub-expressions is
  put in another order.
\<close>

theorem CheckQuorum_refines_Satisfies_ref:
  "nil_free e \<Longrightarrow>
   CheckQuorum (Some e) have = Inr (Satisfies_ref e have) \<and>
   (\<forall>vs' subs'. mset vs' = mset (Verifiers e) \<and> mset subs' = mset (Subexpressions e) \<longrightarrow>
      CheckQuorum (Some (QuorumExpr (Threshold e) vs' subs')) have = CheckQuorum (Some e) have)"
proof (intro conjI allI impI)
  assume nf: "nil_free e"
  then show eq: "CheckQuorum (Some e) have = Inr (Satisfies_ref e have)"
    by (rule CheckQuorum_eq_Satisfies_ref)
  fix vs' subs'
  assume p: "mset vs' = mset (Verifiers e) \<and> mset subs' = mset (Subexpressions e)"
  then have "set subs' = set (Subexpressions e)" by (metis set_mset_mset)
  with nf have nf': "nil_free (QuorumExpr (Threshold e) vs' subs')"
    by (cases e) (simp add: list_all_iff)
  have "Satisfies_ref (QuorumExpr (Threshold e) vs' subs') have = Satisfies_ref e have"
    using p by (cases e) (simp add: length_filter_mset_eq [of vs'] length_filter_mset_eq [of subs'])
  with eq CheckQuorum_eq_Satisfies_ref [OF nf', of "have"]
  show "CheckQuorum (Some (QuorumExpr (Threshold e) vs' subs')) have = CheckQuorum (Some e) have"
    by simp
qed

text \<open>
  An expression satisfied by one present verifier and one satisfied sub-expression,
  and the same expression with its verifiers in another order.
\<close>

theorem CheckQuorum_refines_Satisfies_ref_witness:
  "nil_free (QuorumExpr (2 :: 64 word) [1, 2, 3] [Some (QuorumExpr 1 [4] [])]) \<and>
   Satisfies_ref (QuorumExpr (2 :: 64 word) [1, 2, 3] [Some (QuorumExpr 1 [4] [])]) [3 \<mapsto> (), 4 \<mapsto> ()] \<and>
   CheckQuorum (Some (QuorumExpr (2 :: 64 word) [1, 2, 3] [Some (QuorumExpr 1 [4] [])])) [3 \<mapsto> (), 4 \<mapsto> ()]
     = Inr True \<and>
   CheckQuorum (Some (QuorumExpr (2 :: 64 word) [3, 1, 2] [Some (QuorumExpr 1 [4] [])])) [3 \<mapsto> (), 4 \<mapsto> ()]
     = Inr True"
  using CheckQuorum_refines_Satisfies_ref
    [of "QuorumExpr (2 :: 64 word) [1, 2, 3] [Some (QuorumExpr 1 [4] [])]" "[3 \<mapsto> (), 4 \<mapsto> ()]"]
  by simp

text \<open>
  C3. For a leaf expression (no sub-expressions) whose verifiers are pairwise distinct
  and form the set \<open>V\<close>, with a threshold \<open>T\<close> of at most \<open>|V|\<close>, and for every presence
  map: \<open>CheckQuorum\<close> returns true if and only if at least \<open>T\<close> elements of \<open>V\<close> are
  present.
\<close>

theorem CheckQuorum_leaf:
  "distinct verifiers \<Longrightarrow> unat threshold \<le> card (set verifiers) \<Longrightarrow>
   CheckQuorum (Some (QuorumExpr threshold verifiers [])) have =
     Inr (unat threshold \<le> card (set verifiers \<inter> dom have))"
  using CheckQuorum_eq_Satisfies_ref [of "QuorumExpr threshold verifiers []" "have"]
  by (simp add: length_filter_distinct)

text \<open>
  The example of the specification: threshold 2, verifiers 1, 2, 3, of which 1 and 3
  are present.
\<close>

theorem CheckQuorum_leaf_witness:
  "distinct [1, 2, 3 :: u64] \<and> unat (2 :: 64 word) \<le> card (set [1, 2, 3 :: u64]) \<and>
   CheckQuorum (Some (QuorumExpr (2 :: 64 word) [1, 2, 3] [])) [1 \<mapsto> (), 3 \<mapsto> ()] = Inr True \<and>
   card (set [1, 2, 3 :: u64] \<inter> dom [1 \<mapsto> (), 3 \<mapsto> ()]) = 2"
proof -
  have d: "distinct [1, 2, 3 :: u64]" by simp
  have c: "unat (2 :: 64 word) \<le> card (set [1, 2, 3 :: u64])" by simp
  have i: "set [1, 2, 3 :: u64] \<inter> dom [1 \<mapsto> (), 3 \<mapsto> ()] = {1, 3}" by auto
  have k: "card (set [1, 2, 3 :: u64] \<inter> dom [1 \<mapsto> (), 3 \<mapsto> ()]) = 2"
    unfolding i by simp
  from CheckQuorum_leaf [OF d c, of "[1 \<mapsto> (), 3 \<mapsto> ()]"] d c k show ?thesis
    by simp
qed

text \<open>
  C4. Occurrences of one verifier at different places of the tree are counted each on
  its own, with no record of the verifiers already counted: an expression of threshold
  2 with the verifier \<open>v\<close> in its list and the sub-expression of threshold 1 over \<open>v\<close>
  is satisfied by the presence of \<open>v\<close> alone.
\<close>

theorem CheckQuorum_counts_occurrences:
  "CheckQuorum (Some (QuorumExpr 2 [v] [Some (QuorumExpr 1 [v] [])])) [v \<mapsto> ()] = Inr True"
  by simp

text \<open>The same at the verifier 5, with a threshold of 64 bits.\<close>

theorem CheckQuorum_counts_occurrences_witness:
  "CheckQuorum (Some (QuorumExpr (2 :: 64 word) [5] [Some (QuorumExpr 1 [5] [])])) [5 \<mapsto> ()]
     = Inr True"
  using CheckQuorum_counts_occurrences [of 5, where ?'a = 64] by simp

text \<open>
  C6. An expression whose threshold is greater than the length of its verifiers list
  plus the length of its list of sub-expressions is satisfied by no presence map; in
  particular an expression with a threshold above 0 and with neither verifiers nor
  sub-expressions is never satisfied.
\<close>

theorem CheckQuorum_threshold_too_large:
  "(nil_free e \<and> length (Verifiers e) + length (Subexpressions e) < unat (Threshold e) \<longrightarrow>
      CheckQuorum (Some e) have = Inr False) \<and>
   (threshold \<noteq> 0 \<longrightarrow> CheckQuorum (Some (QuorumExpr threshold [] [])) have = Inr False)"
proof (intro conjI impI)
  assume a: "nil_free e \<and> length (Verifiers e) + length (Subexpressions e) < unat (Threshold e)"
  obtain t vs subs where e: "e = QuorumExpr t vs subs" by (cases e)
  let ?sat = "\<lambda>e. case e of None \<Rightarrow> False | Some e' \<Rightarrow> Satisfies_ref e' have"
  have l: "length (filter (\<lambda>v. v \<in> dom have) vs) \<le> length vs"
    "length (filter ?sat subs) \<le> length subs"
    by simp_all
  from a e have "length vs + length subs < unat t" by simp
  with l have "\<not> unat t \<le> length (filter (\<lambda>v. v \<in> dom have) vs) + length (filter ?sat subs)"
    by linarith
  with e have "\<not> Satisfies_ref e have" by simp
  with a show "CheckQuorum (Some e) have = Inr False"
    by (simp add: CheckQuorum_eq_Satisfies_ref)
next
  assume "threshold \<noteq> 0"
  then show "CheckQuorum (Some (QuorumExpr threshold [] [])) have = Inr False" by simp
qed

text \<open>
  Threshold 3 over one verifier, which is present, and one sub-expression, which is
  satisfied; and threshold 1 over nothing.
\<close>

theorem CheckQuorum_threshold_too_large_witness:
  "nil_free (QuorumExpr (3 :: 64 word) [1] [Some (QuorumExpr 0 [] [])]) \<and>
   length [1 :: u64] + length [Some (QuorumExpr (0 :: 64 word) [] [])] < unat (3 :: 64 word) \<and>
   CheckQuorum (Some (QuorumExpr (3 :: 64 word) [1] [Some (QuorumExpr 0 [] [])])) [1 \<mapsto> ()]
     = Inr False \<and>
   (1 :: 64 word) \<noteq> 0 \<and>
   CheckQuorum (Some (QuorumExpr (1 :: 64 word) [] [])) [1 \<mapsto> ()] = Inr False"
  using CheckQuorum_threshold_too_large
    [of "QuorumExpr (3 :: 64 word) [1] [Some (QuorumExpr 0 [] [])]" "[1 \<mapsto> ()]" 1]
  by simp

text \<open>
  C9. A sub-expression of threshold 0 counts as one satisfied unit, also against the
  empty presence map: an expression of threshold \<open>T > 0\<close>, at least \<open>T\<close> of whose
  sub-expressions have threshold 0, is satisfied by every presence map.
\<close>

theorem CheckQuorum_zero_subexpressions:
  "nil_free e \<Longrightarrow> Threshold e \<noteq> 0 \<Longrightarrow>
   unat (Threshold e) \<le>
     length (filter (\<lambda>s. case s of None \<Rightarrow> False | Some s' \<Rightarrow> Threshold s' = 0)
               (Subexpressions e)) \<Longrightarrow>
   CheckQuorum (Some e) have = Inr True"
proof -
  assume nf: "nil_free e" and le: "unat (Threshold e) \<le>
     length (filter (\<lambda>s. case s of None \<Rightarrow> False | Some s' \<Rightarrow> Threshold s' = 0)
               (Subexpressions e))"
  obtain t vs subs where e: "e = QuorumExpr t vs subs" by (cases e)
  let ?zero = "\<lambda>s. case s of None \<Rightarrow> False | Some s' \<Rightarrow> Threshold s' = 0"
  let ?sat = "\<lambda>e. case e of None \<Rightarrow> False | Some e' \<Rightarrow> Satisfies_ref e' have"
  have z: "?zero s \<Longrightarrow> ?sat s" for s
  proof (cases s)
    case None
    assume "?zero s" with None show ?thesis by simp
  next
    case (Some s')
    assume "?zero s" with Some show ?thesis by (cases s') simp
  qed
  have "length (filter ?zero subs) \<le> length (filter ?sat subs)"
  proof (induction subs)
    case Nil
    show ?case by simp
  next
    case (Cons s subs)
    with z [of s] show ?case by auto
  qed
  with le e have "Satisfies_ref e have" by simp
  with nf show ?thesis by (simp add: CheckQuorum_eq_Satisfies_ref)
qed

text \<open>
  Threshold 2 over two sub-expressions of threshold 0 and a verifier that is absent:
  satisfied by the empty presence map.
\<close>

theorem CheckQuorum_zero_subexpressions_witness:
  "nil_free (QuorumExpr (2 :: 64 word) [9] [Some (QuorumExpr 0 [] []), Some (QuorumExpr 0 [8] [])]) \<and>
   (2 :: 64 word) \<noteq> 0 \<and>
   unat (2 :: 64 word) \<le>
     length (filter (\<lambda>s. case s of None \<Rightarrow> False | Some s' \<Rightarrow> Threshold s' = 0)
               [Some (QuorumExpr (0 :: 64 word) [] []), Some (QuorumExpr 0 [8] [])]) \<and>
   CheckQuorum (Some (QuorumExpr (2 :: 64 word) [9]
       [Some (QuorumExpr 0 [] []), Some (QuorumExpr 0 [8] [])])) Map.empty = Inr True"
  using CheckQuorum_zero_subexpressions
    [of "QuorumExpr (2 :: 64 word) [9] [Some (QuorumExpr 0 [] []), Some (QuorumExpr 0 [8] [])]"
        Map.empty]
  by simp

section \<open>Monotonicity\<close>

lemma length_filter_dom_mono:
  "dom have \<subseteq> dom have' \<Longrightarrow>
   length (filter (\<lambda>v. v \<in> dom have) vs) \<le> length (filter (\<lambda>v. v \<in> dom have') vs)"
  by (induction vs) auto

lemma unat_pred_mono:
  fixes r r' :: "'w::len word"
  assumes "r \<noteq> 0" "r' \<noteq> 0" "unat r' \<le> unat r"
  shows "unat (r' - 1) \<le> unat (r - 1)" and "unat (r' - 1) \<le> unat r"
  using assms by (simp_all add: unat_minus_one)

lemma unat_le_one:
  fixes r' :: "'w::len word"
  assumes "r' \<noteq> 0" "unat r' \<le> unat (1 :: 'w word)"
  shows "r' = 1"
proof -
  have "unat r' \<noteq> 0" using assms(1) by (simp add: unat_eq_zero)
  with assms(2) have "unat r' = unat (1 :: 'w word)" by simp
  then show ?thesis by (simp add: word_unat_eq_iff)
qed

lemma CheckQuorum_mono_aux:
  fixes have' :: verifier_map
    and e :: "('w::len) word QuorumExpr option"
    and es :: "'w word QuorumExpr option list"
  shows
  "dom have \<subseteq> dom have' \<Longrightarrow> CheckQuorum e have = Inr b \<Longrightarrow>
     \<exists>b'. CheckQuorum e have' = Inr b' \<and> (b \<longrightarrow> b')"
  and
  "dom have \<subseteq> dom have' \<Longrightarrow> subexpressions_loop es have remaining = Inr b \<Longrightarrow>
     remaining \<noteq> 0 \<Longrightarrow> r' \<noteq> 0 \<Longrightarrow> unat r' \<le> unat remaining \<Longrightarrow>
     \<exists>b'. subexpressions_loop es have' r' = Inr b' \<and> (b \<longrightarrow> b')"
proof (induction e "have" and es "have" remaining arbitrary: b and b r'
    rule: CheckQuorum_subexpressions_loop.induct)
  case (1 "have")
  then show ?case by simp
next
  case (2 t vs subs "have")
  let ?n = "length (filter (\<lambda>v. v \<in> dom have) vs)"
  let ?n' = "length (filter (\<lambda>v. v \<in> dom have') vs)"
  have nn: "?n \<le> ?n'" using "2.prems"(1) by (rule length_filter_dom_mono)
  show ?case
  proof (cases "t = 0")
    case True
    then show ?thesis by auto
  next
    case nz: False
    show ?thesis
    proof (cases "unat t \<le> ?n'")
      case True
      with nz show ?thesis by (auto simp: verifiers_loop_count)
    next
      case False
      then have lt': "?n' < unat t" by simp
      with nn have lt: "?n < unat t" by simp
      have v: "verifiers_loop vs have t = Fallthrough (t - of_nat ?n)"
        using nz lt by (simp add: verifiers_loop_count)
      have v': "verifiers_loop vs have' t = Fallthrough (t - of_nat ?n')"
        using nz lt' by (simp add: verifiers_loop_count)
      have s: "subexpressions_loop subs have (t - of_nat ?n) = Inr b"
        using "2.prems"(2) nz v by simp
      have le: "unat (t - of_nat ?n') \<le> unat (t - of_nat ?n)"
        using nn by (simp add: unat_sub_of_nat(1) [OF lt] unat_sub_of_nat(1) [OF lt'])
      from "2.IH" [OF nz v "2.prems"(1) s unat_sub_of_nat(2) [OF lt]
          unat_sub_of_nat(2) [OF lt'] le]
      show ?thesis using nz v' by auto
    qed
  qed
next
  case (3 "have" remaining)
  then show ?case by auto
next
  case (4 e es "have" remaining)
  from "4.prems"(2) obtain yes where e: "CheckQuorum e have = Inr yes"
    by (cases "CheckQuorum e have") auto
  from "4.IH"(1) [OF "4.prems"(1) e] obtain yes'
    where e': "CheckQuorum e have' = Inr yes'" and imp: "yes \<longrightarrow> yes'" by blast
  note nz = \<open>remaining \<noteq> 0\<close> and nz' = \<open>r' \<noteq> 0\<close> and le = \<open>unat r' \<le> unat remaining\<close>
  show ?case
  proof (cases yes)
    case True
    with imp have y': yes' by simp
    show ?thesis
    proof (cases "r' - 1 = 0")
      case True
      with e' y' show ?thesis by auto
    next
      case r1: False
      have "remaining - 1 \<noteq> 0"
      proof
        assume "remaining - 1 = 0"
        then have "remaining = 1" by simp
        with unat_le_one [OF nz'] le have "r' = 1" by simp
        with r1 show False by simp
      qed
      moreover from this e True "4.prems"(2)
      have "subexpressions_loop es have (remaining - 1) = Inr b" by simp
      ultimately have "\<exists>b'. subexpressions_loop es have' (r' - 1) = Inr b' \<and> (b \<longrightarrow> b')"
        using "4.IH"(2) [OF e True _ "4.prems"(1), of b "r' - 1"] r1
          unat_pred_mono(1) [OF nz nz' le] by blast
      with e' y' r1 show ?thesis by auto
    qed
  next
    case False
    with e "4.prems"(2) have s: "subexpressions_loop es have remaining = Inr b" by simp
    show ?thesis
    proof (cases yes')
      case no': False
      from "4.IH"(3) [OF e False "4.prems"(1) s nz nz' le] e' no' show ?thesis by auto
    next
      case y': True
      show ?thesis
      proof (cases "r' - 1 = 0")
        case True
        with e' y' show ?thesis by auto
      next
        case r1: False
        from "4.IH"(3) [OF e False "4.prems"(1) s nz r1 unat_pred_mono(2) [OF nz nz' le]]
          e' y' r1 show ?thesis by auto
      qed
    qed
  qed
qed

text \<open>
  C8. \<open>CheckQuorum\<close> is monotone in the presence map: when it returns true for \<open>have\<close>
  and every key of \<open>have\<close> is a key of \<open>have'\<close>, it returns true for \<open>have'\<close>. More
  ratifications never undo a satisfied policy. This holds for every argument of the
  function, trees with nil pointers included: an evaluation that succeeded does not
  reach a nil pointer when more verifiers are present.
\<close>

theorem CheckQuorum_monotone:
  "dom have \<subseteq> dom have' \<Longrightarrow> CheckQuorum e have = Inr True \<Longrightarrow> CheckQuorum e have' = Inr True"
  using CheckQuorum_mono_aux(1) [of "have" have' e True] by auto

text \<open>
  From the presence of 1 and 3 to the presence of 1, 2 and 3, on an expression that
  holds a nil pointer which neither evaluation reaches.
\<close>

theorem CheckQuorum_monotone_witness:
  "dom [(1 :: u64) \<mapsto> (), 3 \<mapsto> ()] \<subseteq> dom [1 \<mapsto> (), 2 \<mapsto> (), 3 \<mapsto> ()] \<and>
   CheckQuorum (Some (QuorumExpr (2 :: 64 word) [1, 2, 3] [None])) [1 \<mapsto> (), 3 \<mapsto> ()] = Inr True \<and>
   CheckQuorum (Some (QuorumExpr (2 :: 64 word) [1, 2, 3] [None])) [1 \<mapsto> (), 2 \<mapsto> (), 3 \<mapsto> ()]
     = Inr True"
proof -
  have d: "dom [1 \<mapsto> (), 3 \<mapsto> ()] \<subseteq> dom [(1 :: u64) \<mapsto> (), 2 \<mapsto> (), 3 \<mapsto> ()]" by auto
  have c: "CheckQuorum (Some (QuorumExpr (2 :: 64 word) [1, 2, 3] [None])) [1 \<mapsto> (), 3 \<mapsto> ()]
             = Inr True" by simp
  from CheckQuorum_monotone [OF d c] d c show ?thesis by simp
qed

section \<open>ListQuorum\<close>

lemma inserted_refl: "inserted h out {} h"
  by (simp add: inserted_def)

lemma inserted_trans: "inserted h out A h1 \<Longrightarrow> inserted h1 out B h2 \<Longrightarrow> inserted h out (A \<union> B) h2"
  by (auto simp: inserted_def)

lemma inserted_map_insert: "inserted h out {v} (map_insert out v h)"
  by (simp add: inserted_def map_insert_def)

lemma inserted_insert_loop: "inserted h out (set vs) (insert_loop vs out h)"
proof (induction vs arbitrary: h)
  case Nil
  show ?case by (simp add: inserted_refl)
next
  case (Cons v vs)
  have "inserted h out ({v} \<union> set vs) (insert_loop vs out (map_insert out v h))"
    using inserted_map_insert Cons.IH by (rule inserted_trans)
  then show ?case by simp
qed

lemma ListQuorum_loop_inserted:
  assumes "\<And>e h. e \<in> set es \<Longrightarrow>
             \<exists>h'. ListQuorum e (Some out) h = Inr (out, h') \<and> inserted h out (f e) h'"
  shows "\<exists>h'. ListQuorum_loop es out h = Inr h' \<and> inserted h out (\<Union>e\<in>set es. f e) h'"
  using assms
proof (induction es arbitrary: h)
  case Nil
  show ?case by (simp add: inserted_refl)
next
  case (Cons e es)
  from Cons.prems [of e h] obtain h1
    where e: "ListQuorum e (Some out) h = Inr (out, h1)" and g1: "inserted h out (f e) h1"
    by auto
  from Cons.IH [of h1] Cons.prems obtain h2
    where es: "ListQuorum_loop es out h1 = Inr h2" and g2: "inserted h1 out (\<Union>e\<in>set es. f e) h2"
    by auto
  from inserted_trans [OF g1 g2] e es show ?case by simp
qed

lemma ListQuorum_inserted:
  "nil_free e \<Longrightarrow>
   \<exists>h'. ListQuorum (Some e) (Some out) h = Inr (out, h') \<and> inserted h out (all_verifiers e) h'"
proof (induction e arbitrary: h)
  case (QuorumExpr t vs subs)
  let ?f = "\<lambda>e. case e of None \<Rightarrow> {} | Some e' \<Rightarrow> all_verifiers e'"
  have "\<exists>h'. ListQuorum e (Some out) h = Inr (out, h') \<and> inserted h out (?f e) h'"
    if "e \<in> set subs" for e h
  proof -
    from that QuorumExpr.prems obtain e' where e': "e = Some e'" "nil_free e'"
      by (auto simp: list_all_iff split: option.splits)
    with that QuorumExpr.IH [of e e' h] show ?thesis by simp
  qed
  from ListQuorum_loop_inserted [of subs out ?f "insert_loop vs out h", OF this]
  obtain h2 where l: "ListQuorum_loop subs out (insert_loop vs out h) = Inr h2"
    and g: "inserted (insert_loop vs out h) out (\<Union>e\<in>set subs. ?f e) h2"
    by blast
  from inserted_trans [OF inserted_insert_loop g] l show ?case by simp
qed

text \<open>
  C5. Called with a nil accumulator on a finite quorum expression, \<open>ListQuorum\<close>
  returns a newly allocated map (its reference is the one the store hands out next, and
  no map that existed before is changed) whose keys are exactly the verifiers that the
  expression or any of its sub-expressions, at any depth, lists; a verifier that
  occurs several times is one key.
\<close>

theorem ListQuorum_nil_accumulator:
  "nil_free e \<Longrightarrow>
   \<exists>h'. ListQuorum (Some e) None h = Inr (next_ref h, h') \<and>
        dom (cells h' (next_ref h)) = all_verifiers e \<and>
        next_ref h' = Suc (next_ref h) \<and>
        (\<forall>r. r \<noteq> next_ref h \<longrightarrow> cells h' r = cells h r)"
proof -
  assume nf: "nil_free e"
  obtain out h1 where m: "make_map h = (out, h1)" by (cases "make_map h")
  then have out: "out = next_ref h" and h1: "dom (cells h1 out) = {}"
    "next_ref h1 = Suc (next_ref h)" "\<forall>r. r \<noteq> out \<longrightarrow> cells h1 r = cells h r"
    by (auto simp: make_map_def)
  from ListQuorum_inserted [OF nf, of out h1] obtain h'
    where l: "ListQuorum (Some e) (Some out) h1 = Inr (out, h')"
      and g: "inserted h1 out (all_verifiers e) h'" by blast
  have "ListQuorum (Some e) None h = ListQuorum (Some e) (Some out) h1"
    using m by (cases e) simp
  with l g out h1 show ?thesis by (auto simp: inserted_def)
qed

text \<open>
  The example of the specification: the outer expression with the inner one over the
  verifiers 1 and 2 gives the keys 1 and 2.
\<close>

theorem ListQuorum_nil_accumulator_witness:
  "nil_free (QuorumExpr (1 :: 64 word) [] [Some (QuorumExpr 2 [1, 2] [])]) \<and>
   (\<exists>h'. ListQuorum (Some (QuorumExpr (1 :: 64 word) [] [Some (QuorumExpr 2 [1, 2] [])])) None
           \<lparr>cells = (\<lambda>r. Map.empty), next_ref = 4\<rparr> = Inr (4, h') \<and>
         dom (cells h' 4) = {1, 2} \<and> next_ref h' = 5)"
  using ListQuorum_nil_accumulator
    [of "QuorumExpr (1 :: 64 word) [] [Some (QuorumExpr 2 [1, 2] [])]"
        "\<lparr>cells = (\<lambda>r. Map.empty), next_ref = 4\<rparr>"]
  by auto

text \<open>
  C10. Called with a map \<open>out\<close> that is not nil, \<open>ListQuorum\<close> returns that same map,
  changed in place: afterwards its keys are the keys it had before together with all
  verifiers of the tree, none of the earlier keys is removed, no other map is touched
  and none is allocated.
\<close>

theorem ListQuorum_accumulator:
  "nil_free e \<Longrightarrow>
   \<exists>h'. ListQuorum (Some e) (Some out) h = Inr (out, h') \<and>
        dom (cells h' out) = dom (cells h out) \<union> all_verifiers e \<and>
        dom (cells h out) \<subseteq> dom (cells h' out) \<and>
        (\<forall>r. r \<noteq> out \<longrightarrow> cells h' r = cells h r) \<and>
        next_ref h' = next_ref h"
proof -
  assume "nil_free e"
  from ListQuorum_inserted [OF this, of out h] obtain h'
    where "ListQuorum (Some e) (Some out) h = Inr (out, h')"
      and "inserted h out (all_verifiers e) h'" by blast
  then show ?thesis by (auto simp: inserted_def)
qed

text \<open>
  A map that holds the key 7, filled from an expression over the verifiers 1 and 2,
  one of them listed twice.
\<close>

theorem ListQuorum_accumulator_witness:
  "nil_free (QuorumExpr (1 :: 64 word) [2] [Some (QuorumExpr 2 [1, 2] [])]) \<and>
   (\<exists>h'. ListQuorum (Some (QuorumExpr (1 :: 64 word) [2] [Some (QuorumExpr 2 [1, 2] [])])) (Some 0)
           \<lparr>cells = (\<lambda>r. [7 \<mapsto> ()]), next_ref = 1\<rparr> = Inr (0, h') \<and>
         dom (cells h' 0) = {1, 2, 7} \<and> cells h' 3 = [7 \<mapsto> ()] \<and> next_ref h' = 1)"
  using ListQuorum_accumulator
    [of "QuorumExpr (1 :: 64 word) [2] [Some (QuorumExpr 2 [1, 2] [])]" 0
        "\<lparr>cells = (\<lambda>r. [7 \<mapsto> ()]), next_ref = 1\<rparr>"]
  by auto

section \<open>GetCommitted\<close>

lemma limit_size_length: "length (limit_size m t es) \<le> length es"
  by (induction es arbitrary: t) auto

lemma limit_size_nth: "k < length (limit_size m t es) \<Longrightarrow> limit_size m t es ! k = es ! k"
proof (induction es arbitrary: t k)
  case Nil
  then show ?case by simp
next
  case (Cons e es)
  then show ?case by (cases k) (auto split: if_splits)
qed

lemma limit_size_total:
  "limit_size m t es \<noteq> [] \<Longrightarrow> t + sum_list (map length (limit_size m t es)) \<le> m"
proof (induction es arbitrary: t)
  case Nil
  then show ?case by simp
next
  case (Cons e es)
  from Cons.prems have le: "t + length e \<le> m" by (simp split: if_splits)
  show ?case
  proof (cases "limit_size m (t + length e) es = []")
    case True
    with le show ?thesis by simp
  next
    case False
    from Cons.IH [OF False] le show ?thesis by simp
  qed
qed

lemma entries_in_range_nth:
  assumes "horizon log \<le> lo" "k < length (entries_in_range log lo hi)"
  shows "entry_at log (lo + k) = Some (entries_in_range log lo hi ! k)" and "lo + k < hi"
proof -
  from assms(2) have k: "k < hi - lo" "k < length (retained log) - (lo - horizon log)"
    by (simp_all add: entries_in_range_def)
  then show "lo + k < hi" by simp
  from k assms(1) show "entry_at log (lo + k) = Some (entries_in_range log lo hi ! k)"
    by (simp add: entry_at_def entries_in_range_def)
qed

lemma entries_in_range_nonempty:
  assumes "lo \<le> i" "i < hi" "entry_at log i \<noteq> None" "horizon log \<le> lo"
  shows "entries_in_range log lo hi \<noteq> []"
proof -
  from assms(3) have "i < horizon log + length (retained log)"
    by (simp add: entry_at_def split: if_splits)
  with assms(1,2,4) have "0 < hi - lo" "lo - horizon log < length (retained log)" by simp_all
  then show ?thesis by (simp add: entries_in_range_def)
qed


lemma GetCommitted_Inr:
  assumes "GetCommitted log lo hi maxSize = Inr ents"
  shows "horizon log \<le> unat lo"
    and "length ents \<le> length (entries_in_range log (unat lo) (unat hi))"
    and "k < length ents \<Longrightarrow> ents ! k = entries_in_range log (unat lo) (unat hi) ! k"
    and "entries_in_range log (unat lo) (unat hi) \<noteq> [] \<Longrightarrow> ents \<noteq> []"
    and "1 < length ents \<Longrightarrow> sum_list (map length ents) \<le> unat maxSize"
proof -
  from assms show h: "horizon log \<le> unat lo"
    by (simp add: GetCommitted_def split: if_splits)
  from assms have nlt: "\<not> hi < lo" by (simp add: GetCommitted_def split: if_splits)
  let ?r = "entries_in_range log (unat lo) (unat hi)"
  have c: "ents = (case ?r of [] \<Rightarrow> []
              | e # es \<Rightarrow> e # limit_size (unat maxSize) (length e) es)"
    using assms h nlt by (simp add: GetCommitted_def split: list.splits)
  show "length ents \<le> length ?r"
  proof (cases ?r)
    case Nil
    with c show ?thesis by simp
  next
    case (Cons e es)
    with c limit_size_length [of "unat maxSize" "length e" es] show ?thesis by simp
  qed
  show "ents ! k = ?r ! k" if "k < length ents"
  proof (cases ?r)
    case Nil
    with c that show ?thesis by simp
  next
    case (Cons e es)
    with c that limit_size_nth [of "k - 1" "unat maxSize" "length e" es] show ?thesis
      by (cases k) simp_all
  qed
  show "?r \<noteq> [] \<Longrightarrow> ents \<noteq> []" using c by (cases ?r) simp_all
  show "sum_list (map length ents) \<le> unat maxSize" if "1 < length ents"
  proof (cases ?r)
    case Nil
    with c that show ?thesis by simp
  next
    case (Cons e es)
    with c that have "limit_size (unat maxSize) (length e) es \<noteq> []" by auto
    from limit_size_total [OF this] c Cons show ?thesis by simp
  qed
qed

text \<open>
  C7. When \<open>GetCommitted lo hi maxSize\<close> succeeds, the entries it returns are the
  committed entries at the indices \<open>lo\<close>, \<open>lo + 1\<close>, ... in this order, so the first is
  the entry at \<open>lo\<close> and they are consecutive; all their indices are below \<open>hi\<close>; at
  least one entry is returned when a committed entry with an index from \<open>lo\<close> below
  \<open>hi\<close> exists, however large it is; and more than one entry is returned only
  when all of them together have at most \<open>maxSize\<close> bytes. So
  \<open>GetCommitted 0 3 10\<close> on a log whose entry 0 has 50 bytes returns this entry and no
  other.
\<close>

theorem GetCommitted_contract:
  "(GetCommitted log lo hi maxSize = Inr ents \<longrightarrow>
      (\<forall>k<length ents. entry_at log (unat lo + k) = Some (ents ! k) \<and> unat lo + k < unat hi) \<and>
      ((\<exists>i. unat lo \<le> i \<and> i < unat hi \<and> entry_at log i \<noteq> None) \<longrightarrow> ents \<noteq> []) \<and>
      (1 < length ents \<longrightarrow> sum_list (map length ents) \<le> unat maxSize)) \<and>
   (horizon log0 = 0 \<and> retained log0 = A # rest \<and> length A = 50 \<longrightarrow>
      GetCommitted log0 0 3 10 = Inr [A])"
proof (intro conjI impI allI)
  assume g: "GetCommitted log lo hi maxSize = Inr ents"
  note r = GetCommitted_Inr [OF g]
  let ?r = "entries_in_range log (unat lo) (unat hi)"
  {
    fix k assume k: "k < length ents"
    from r(2) k have k': "k < length ?r" by simp
    from r(3) [OF k] entries_in_range_nth [OF r(1) k']
    show "entry_at log (unat lo + k) = Some (ents ! k)" and "unat lo + k < unat hi"
      by simp_all
  }
  {
    assume "\<exists>i. unat lo \<le> i \<and> i < unat hi \<and> entry_at log i \<noteq> None"
    then obtain i where "unat lo \<le> i" "i < unat hi" "entry_at log i \<noteq> None" by blast
    from entries_in_range_nonempty [OF this r(1)] r(4) show "ents \<noteq> []" by simp
  }
  {
    assume "1 < length ents"
    then show "sum_list (map length ents) \<le> unat maxSize" by (rule r(5))
  }
next
  assume "horizon log0 = 0 \<and> retained log0 = A # rest \<and> length A = 50"
  then show "GetCommitted log0 0 3 10 = Inr [A]"
    by (cases rest) (simp_all add: GetCommitted_def entries_in_range_def)
qed

text \<open>
  A log of three entries of 50, 2 and 1 bytes: from index 1 both small entries are
  returned, from index 0 only the large one.
\<close>

theorem GetCommitted_contract_witness:
  "GetCommitted \<lparr>horizon = 0, retained = [replicate 50 0, [1, 2], [3]]\<rparr> 1 3 10
     = Inr ([1, 2] # [3] # []) \<and>
   entry_at \<lparr>horizon = 0, retained = [replicate 50 0, [1, 2], [3]]\<rparr> 1 = Some [1, 2] \<and>
   entry_at \<lparr>horizon = 0, retained = [replicate 50 0, [1, 2], [3]]\<rparr> 2 = Some [3] \<and>
   sum_list (map length ([1, 2] # [3 :: byte] # [])) \<le> unat (10 :: u64) \<and>
   GetCommitted \<lparr>horizon = 0, retained = [replicate 50 0, [1, 2], [3]]\<rparr> 0 3 10
     = Inr [replicate 50 0]"
proof -
  let ?log = "\<lparr>horizon = 0, retained = [replicate 50 0, [1, 2], [3 :: byte]]\<rparr>"
  have g: "GetCommitted ?log 1 3 10 = Inr ([1, 2] # [3] # [])"
    by (simp add: GetCommitted_def entries_in_range_def)
  have e: "horizon ?log = 0 \<and> retained ?log = replicate 50 0 # [1, 2] # [3] # [] \<and>
           length (replicate 50 (0 :: byte)) = 50" by simp
  from GetCommitted_contract [of ?log 1 3 10 "[1, 2] # [3] # []" ?log "replicate 50 0" "[1, 2] # [3] # []"]
    g e
  have "(\<forall>k<2. entry_at ?log (1 + k) = Some (([1, 2] # [3] # []) ! k) \<and> 1 + k < (3 :: nat)) \<and>
        sum_list (map length ([1, 2] # [3 :: byte] # [])) \<le> unat (10 :: u64) \<and>
        GetCommitted ?log 0 3 10 = Inr [replicate 50 0]"
    by simp
  then have "entry_at ?log (1 + 0) = Some (([1, 2] # [3] # []) ! 0)"
    "entry_at ?log (1 + 1) = Some (([1, 2] # [3] # []) ! 1)"
    "sum_list (map length ([1, 2] # [3 :: byte] # [])) \<le> unat (10 :: u64)"
    "GetCommitted ?log 0 3 10 = Inr [replicate 50 0]"
    by simp_all
  with g show ?thesis by (simp add: numeral_2_eq_2)
qed

end
